theory Spec2Isabelle
  imports Main
begin

section \<open>Text: the operations of Python's \<open>str\<close> that the tool uses\<close>

text \<open>
  A Python string is modelled as a \<^typ>\<open>string\<close>, a list of characters. A character of
  the model is a code point below 256 (ASCII and the Latin-1 supplement); on this range
  \<open>str.lower\<close> works character by character and \<open>len\<close> is the length of the list.
  Text with code points from 256 on is outside the model.
\<close>

definition LF :: char where
  "LF = CHR 0x0A"

definition CR :: char where
  "CR = CHR 0x0D"

text \<open>\<open>str.isspace\<close> on one character: the code points below 256 that Python treats as
  white space.\<close>

definition isspace :: "char \<Rightarrow> bool" where
  "isspace c = (c \<in> set [CHR 0x09, CHR 0x0A, CHR 0x0B, CHR 0x0C, CHR 0x0D,
                          CHR 0x1C, CHR 0x1D, CHR 0x1E, CHR 0x1F, CHR 0x20,
                          CHR 0x85, CHR 0xA0])"

text \<open>\<open>s.strip()\<close>: leading and trailing white space removed.\<close>

definition strip :: "string \<Rightarrow> string" where
  "strip s = rev (dropWhile isspace (rev (dropWhile isspace s)))"

text \<open>The upper-case letters below 256: \<open>A\<close> to \<open>Z\<close>, and \<open>0xC0\<close> to \<open>0xDE\<close> without the
  multiplication sign \<open>0xD7\<close>. Each has its lower-case form 32 code points higher.\<close>

definition isupper :: "char \<Rightarrow> bool" where
  "isupper c = (let n = (of_char c :: nat) in
     (65 \<le> n \<and> n \<le> 90) \<or> (192 \<le> n \<and> n \<le> 222 \<and> n \<noteq> 215))"

definition lower_char :: "char \<Rightarrow> char" where
  "lower_char c = (if isupper c then char_of ((of_char c :: nat) + 32) else c)"

text \<open>\<open>s.lower()\<close>.\<close>

definition lower :: "string \<Rightarrow> string" where
  "lower s = map lower_char s"

text \<open>\<open>s.endswith(suffix)\<close> and \<open>s.removesuffix(suffix)\<close>.\<close>

definition endswith :: "string \<Rightarrow> string \<Rightarrow> bool" where
  "endswith s suffix =
     (length suffix \<le> length s \<and> drop (length s - length suffix) s = suffix)"

definition removesuffix :: "string \<Rightarrow> string \<Rightarrow> string" where
  "removesuffix s suffix =
     (if suffix \<noteq> [] \<and> endswith s suffix then take (length s - length suffix) s else s)"

text \<open>\<open>t in s\<close> on strings: \<open>t\<close> occurs in \<open>s\<close> as a contiguous block.\<close>

fun py_in :: "string \<Rightarrow> string \<Rightarrow> bool" where
  "py_in t [] = (t = [])"
| "py_in t (c # cs) = (take (length t) (c # cs) = t \<or> py_in t cs)"

section \<open>Files\<close>

text \<open>
  The file store maps a path to the text of the file there, or to \<open>None\<close> where there is
  no file. The text is the decoded content as it is on disk; \<open>os.linesep\<close> is a line
  feed, so that writing in text mode stores the characters as they are.
\<close>

type_synonym fs = "string \<rightharpoonup> string"

datatype py_error = FileNotFoundError string

text \<open>\<open>open(path, "r")\<close> and reading the whole file: a missing file raises.\<close>

definition open_read :: "fs \<Rightarrow> string \<Rightarrow> py_error + string" where
  "open_read files path =
     (case files path of None \<Rightarrow> Inl (FileNotFoundError path) | Some content \<Rightarrow> Inr content)"

text \<open>Reading in text mode translates the line endings \<open>CR LF\<close> and \<open>CR\<close> to \<open>LF\<close>.\<close>

fun universal_newlines :: "string \<Rightarrow> string" where
  "universal_newlines [] = []"
| "universal_newlines (c # cs) =
     (if c = CR
      then (case cs of
              [] \<Rightarrow> [LF]
            | d # ds \<Rightarrow> if d = LF then LF # universal_newlines ds
                       else LF # universal_newlines cs)
      else c # universal_newlines cs)"

text \<open>Cutting a text after every line feed; each line keeps its line feed, and a last
  line without one is kept as it is.\<close>

fun split_lines :: "string \<Rightarrow> string list" where
  "split_lines [] = []"
| "split_lines (c # cs) =
     (if c = LF then [c] # split_lines cs
      else (case split_lines cs of [] \<Rightarrow> [[c]] | l # ls \<Rightarrow> (c # l) # ls))"

text \<open>\<open>inFile.readlines()\<close> on the content of a file opened with \<open>"r"\<close>.\<close>

definition readlines :: "string \<Rightarrow> string list" where
  "readlines content = split_lines (universal_newlines content)"

text \<open>
  A file opened with \<open>"a"\<close> is created empty when it is missing; the strings written to it
  are behind its former content when it is closed. Nothing reads the file while it is
  open, so the whole session is one update of the store.
\<close>

definition append_to :: "fs \<Rightarrow> string \<Rightarrow> string list \<Rightarrow> fs" where
  "append_to files path written =
     files(path \<mapsto> (case files path of None \<Rightarrow> [] | Some content \<Rightarrow> content) @ concat written)"

text \<open>\<open>os.path.join\<close> of two components.\<close>

definition path_join :: "string \<Rightarrow> string \<Rightarrow> string" where
  "path_join a b =
     (if take 1 b = ''/'' then b
      else if a = [] \<or> last a = CHR ''/'' then a @ b
      else a @ ''/'' @ b)"

section \<open>The tool\<close>

definition SOURCE_WORDLIST_NAME :: string where
  "SOURCE_WORDLIST_NAME = ''oldlist.txt''"

definition REJECTED_WORDS_NAME :: string where
  "REJECTED_WORDS_NAME = ''rejects.txt''"

definition NEW_WORDS_NAME :: string where
  "NEW_WORDS_NAME = ''newlist.txt''"

text \<open>\<open>neighborFilepath\<close>: the path of a file in the directory of the script. The directory,
  \<open>currentDirPath()\<close>, is the parameter \<open>here\<close>.\<close>

definition neighborFilepath :: "string \<Rightarrow> string \<Rightarrow> string" where
  "neighborFilepath here filename = path_join here filename"

text \<open>\<open>getRejectWords\<close> and \<open>getAcceptedWords\<close>: the lines of the file, and the empty list
  when \<open>FileNotFoundError\<close> is caught.\<close>

definition getRejectWords :: "string \<Rightarrow> fs \<Rightarrow> py_error + string list" where
  "getRejectWords here files =
     (case open_read files (neighborFilepath here REJECTED_WORDS_NAME) of
        Inr inFile \<Rightarrow> Inr (readlines inFile)
      | Inl (FileNotFoundError _) \<Rightarrow> Inr [])"

definition getAcceptedWords :: "string \<Rightarrow> fs \<Rightarrow> py_error + string list" where
  "getAcceptedWords here files =
     (case open_read files (neighborFilepath here NEW_WORDS_NAME) of
        Inr inFile \<Rightarrow> Inr (readlines inFile)
      | Inl (FileNotFoundError _) \<Rightarrow> Inr [])"

text \<open>\<open>findRelatedWords\<close>. The loop runs over the stripped words longer than 2 and appends
  to \<open>output\<close>; \<open>target\<close> is already stripped and lowered when the loop starts.\<close>

fun findRelatedWords_loop :: "string \<Rightarrow> string list \<Rightarrow> string list \<Rightarrow> string list" where
  "findRelatedWords_loop target output [] = output"
| "findRelatedWords_loop target output (word # rest) =
     (let lowerword = lower word in
      if py_in target lowerword \<or> py_in lowerword target
      then findRelatedWords_loop target (output @ [word]) rest
      else findRelatedWords_loop target output rest)"

definition findRelatedWords :: "string \<Rightarrow> string list \<Rightarrow> string list" where
  "findRelatedWords target wordlist =
     findRelatedWords_loop (lower (strip target)) []
       (filter (\<lambda>x. length x > 2) (map (\<lambda>x. strip x) wordlist))"

text \<open>
  What the run shows on the console: the two advisory lines, each with the list it
  prints, and the prompts, each with its message and its default.
\<close>

datatype event =
    RelatedAccepted "string list"
  | RelatedRejected "string list"
  | Prompt string bool

text \<open>
  \<open>inputYesNo\<close> comes from a library: it is a parameter of the model. It answers from
  what the console has shown so far, the message and the default.
\<close>

type_synonym user = "event list \<Rightarrow> string \<Rightarrow> bool \<Rightarrow> bool"

text \<open>The state of the loop of \<open>main\<close>: the two lists in memory, the strings written to
  each of the two files open for appending, and the console.\<close>

record run_state =
  alreadyAccepted :: "string list"
  alreadyRejected :: "string list"
  outFile :: "string list"
  rejectFile :: "string list"
  console :: "event list"

definition prompt_message :: "string \<Rightarrow> string" where
  "prompt_message srcWord = ''accept '' @ [CHR 0x22] @ strip srcWord @ [CHR 0x22] @ ''?''"

text \<open>The test of the length rule in \<open>main\<close>.\<close>

definition auto_accepted :: "string \<Rightarrow> bool" where
  "auto_accepted srcWord = (length (removesuffix (strip srcWord) [CHR 0x27, CHR ''s'']) > 3)"

text \<open>One iteration of the loop of \<open>main\<close>.\<close>

definition process_word :: "user \<Rightarrow> run_state \<Rightarrow> string \<Rightarrow> run_state" where
  "process_word inputYesNo st srcWord =
     (if srcWord \<notin> set (alreadyAccepted st) \<and> srcWord \<notin> set (alreadyRejected st) then
        if auto_accepted srcWord then
          st\<lparr>outFile := outFile st @ [srcWord],
             alreadyAccepted := alreadyAccepted st @ [srcWord]\<rparr>
        else
          let relatedAccepted = findRelatedWords srcWord (alreadyAccepted st);
              relatedRejected = findRelatedWords srcWord (alreadyRejected st);
              st1 = (if length relatedAccepted > 0
                     then st\<lparr>console := console st @ [RelatedAccepted relatedAccepted]\<rparr>
                     else st);
              st2 = (if length relatedRejected > 0
                     then st1\<lparr>console := console st1 @ [RelatedRejected relatedRejected]\<rparr>
                     else st1);
              answer = inputYesNo (console st2) (prompt_message srcWord) True;
              st3 = st2\<lparr>console := console st2 @ [Prompt (prompt_message srcWord) True]\<rparr>
          in if answer then
               st3\<lparr>outFile := outFile st3 @ [srcWord],
                   alreadyAccepted := alreadyAccepted st3 @ [srcWord]\<rparr>
             else
               st3\<lparr>rejectFile := rejectFile st3 @ [srcWord],
                   alreadyRejected := alreadyRejected st3 @ [srcWord]\<rparr>
      else st)"

text \<open>The loop over the lines of the source file.\<close>

fun main_loop :: "user \<Rightarrow> run_state \<Rightarrow> string list \<Rightarrow> run_state" where
  "main_loop inputYesNo st [] = st"
| "main_loop inputYesNo st (srcWord # rest) =
     main_loop inputYesNo (process_word inputYesNo st srcWord) rest"

definition initial_state :: "string list \<Rightarrow> string list \<Rightarrow> run_state" where
  "initial_state accepted rejected =
     \<lparr>alreadyAccepted = accepted, alreadyRejected = rejected,
      outFile = [], rejectFile = [], console = []\<rparr>"

text \<open>
  \<open>main\<close>. The two histories are loaded first; a missing source file raises before the
  two other files are opened for appending, and then the store is as it was. A run that
  ends returns the store and the last state of the loop.
\<close>

definition main :: "string \<Rightarrow> user \<Rightarrow> fs \<Rightarrow> py_error + (fs \<times> run_state)" where
  "main here inputYesNo files =
     (case getAcceptedWords here files of
        Inl e \<Rightarrow> Inl e
      | Inr accepted \<Rightarrow>
         (case getRejectWords here files of
            Inl e \<Rightarrow> Inl e
          | Inr rejected \<Rightarrow>
             (case open_read files (neighborFilepath here SOURCE_WORDLIST_NAME) of
                Inl e \<Rightarrow> Inl e
              | Inr inFile \<Rightarrow>
                 (let st = main_loop inputYesNo (initial_state accepted rejected)
                             (readlines inFile);
                      files1 = append_to files (neighborFilepath here REJECTED_WORDS_NAME)
                                 (rejectFile st);
                      files2 = append_to files1 (neighborFilepath here NEW_WORDS_NAME)
                                 (outFile st)
                  in Inr (files2, st)))))"

section \<open>Notions for stating the properties\<close>

text \<open>A word is undecided in a state when neither list in memory holds it.\<close>

definition undecided :: "run_state \<Rightarrow> string \<Rightarrow> bool" where
  "undecided st w = (w \<notin> set (alreadyAccepted st) \<and> w \<notin> set (alreadyRejected st))"

text \<open>The advisory lines that \<open>main\<close> prints before it prompts for a word.\<close>

definition advisory :: "run_state \<Rightarrow> string \<Rightarrow> event list" where
  "advisory st srcWord =
     (if length (findRelatedWords srcWord (alreadyAccepted st)) > 0
      then [RelatedAccepted (findRelatedWords srcWord (alreadyAccepted st))] else []) @
     (if length (findRelatedWords srcWord (alreadyRejected st)) > 0
      then [RelatedRejected (findRelatedWords srcWord (alreadyRejected st))] else [])"

text \<open>
  The three outcomes of one iteration, read off the states before and after it: the word
  was written to the output file and put on the accepted list, or written to the reject
  file and put on the rejected list, or it was a duplicate and nothing happened.
\<close>

definition accepted_step :: "run_state \<Rightarrow> string \<Rightarrow> run_state \<Rightarrow> bool" where
  "accepted_step st w st' =
     (alreadyAccepted st' = alreadyAccepted st @ [w] \<and> outFile st' = outFile st @ [w] \<and>
      alreadyRejected st' = alreadyRejected st \<and> rejectFile st' = rejectFile st)"

definition rejected_step :: "run_state \<Rightarrow> string \<Rightarrow> run_state \<Rightarrow> bool" where
  "rejected_step st w st' =
     (alreadyRejected st' = alreadyRejected st @ [w] \<and> rejectFile st' = rejectFile st @ [w] \<and>
      alreadyAccepted st' = alreadyAccepted st \<and> outFile st' = outFile st)"

definition skipped_step :: "run_state \<Rightarrow> string \<Rightarrow> run_state \<Rightarrow> bool" where
  "skipped_step st w st' = (st' = st \<and> \<not> undecided st w)"

definition exactly_one :: "bool \<Rightarrow> bool \<Rightarrow> bool \<Rightarrow> bool" where
  "exactly_one a b c =
     ((a \<and> \<not> b \<and> \<not> c) \<or> (\<not> a \<and> b \<and> \<not> c) \<or> (\<not> a \<and> \<not> b \<and> c))"

text \<open>The length rule in the order the specification writes it: the suffix is removed
  from the raw word, and the result is stripped.\<close>

definition claimed_auto_accept :: "string \<Rightarrow> bool" where
  "claimed_auto_accept w = (length (strip (removesuffix w [CHR 0x27, CHR ''s''])) > 3)"

text \<open>The entries of a word list that are related to a target, as the specification
  describes them, and the entries whose stripped form is longer than 2.\<close>

definition related_entry :: "string \<Rightarrow> string \<Rightarrow> bool" where
  "related_entry target w =
     (length (strip w) > 2 \<and>
      (py_in (lower (strip w)) (lower (strip target)) \<or>
       py_in (lower (strip target)) (lower (strip w))))"

definition long_entry :: "string \<Rightarrow> bool" where
  "long_entry w = (length (strip w) > 2)"

text \<open>A text that is empty or ends with a line feed; a history file is well formed when
  it is missing or holds such a text.\<close>

definition newline_terminated :: "string \<Rightarrow> bool" where
  "newline_terminated content = (content = [] \<or> last content = LF)"

definition history_ok :: "string option \<Rightarrow> bool" where
  "history_ok f = (case f of None \<Rightarrow> True | Some content \<Rightarrow> newline_terminated content)"

text \<open>The shape of the strings that \<open>readlines\<close> returns: not empty, no carriage return,
  and a line feed at most at the end. A full line has the line feed.\<close>

definition is_line :: "string \<Rightarrow> bool" where
  "is_line w = (w \<noteq> [] \<and> CR \<notin> set w \<and> LF \<notin> set (butlast w))"

definition full_line :: "string \<Rightarrow> bool" where
  "full_line w = (is_line w \<and> last w = LF)"

definition content_of :: "string option \<Rightarrow> string" where
  "content_of f = (case f of None \<Rightarrow> [] | Some content \<Rightarrow> content)"

text \<open>
  The lists in memory agree with the files: reading the former content \<open>a\<close> of the output
  file followed by what the run has written to it gives the accepted list, and likewise
  for the reject file with former content \<open>r\<close>.
\<close>

definition flushed :: "string \<Rightarrow> string \<Rightarrow> run_state \<Rightarrow> bool" where
  "flushed a r st =
     (readlines (a @ concat (outFile st)) = alreadyAccepted st \<and>
      readlines (r @ concat (rejectFile st)) = alreadyRejected st)"

definition flushed_terminated :: "string \<Rightarrow> string \<Rightarrow> run_state \<Rightarrow> bool" where
  "flushed_terminated a r st =
     (flushed a r st \<and> newline_terminated (a @ concat (outFile st)) \<and>
      newline_terminated (r @ concat (rejectFile st)))"

text \<open>Two users: one who presses enter at every prompt, one who always declines.\<close>

definition always_default :: user where
  "always_default shown message dflt = dflt"

definition always_no :: user where
  "always_no shown message dflt = False"

text \<open>A directory and the paths of the three files in it, for the examples.\<close>

definition tool_dir :: string where
  "tool_dir = ''/opt/tool''"

definition src_path :: string where
  "src_path = ''/opt/tool/oldlist.txt''"

definition new_path :: string where
  "new_path = ''/opt/tool/newlist.txt''"

definition rej_path :: string where
  "rej_path = ''/opt/tool/rejects.txt''"

text \<open>
  The stores of three runs in a row. The first source has no line feed at its end and
  there is no history; then the source gets a line feed and a third word, and is run
  twice.
\<close>

definition first_files :: fs where
  "first_files = [src_path \<mapsto> ''cat\<newline>dog'']"

definition first_files_after :: fs where
  "first_files_after =
     [src_path \<mapsto> ''cat\<newline>dog'', rej_path \<mapsto> [], new_path \<mapsto> ''cat\<newline>dog'']"

definition grown_files :: fs where
  "grown_files =
     [src_path \<mapsto> ''cat\<newline>dog\<newline>bird\<newline>'', rej_path \<mapsto> [], new_path \<mapsto> ''cat\<newline>dog'']"

definition grown_files1 :: fs where
  "grown_files1 =
     [src_path \<mapsto> ''cat\<newline>dog\<newline>bird\<newline>'', rej_path \<mapsto> [],
      new_path \<mapsto> ''cat\<newline>dogdog\<newline>bird\<newline>'']"

definition grown_files2 :: fs where
  "grown_files2 =
     [src_path \<mapsto> ''cat\<newline>dog\<newline>bird\<newline>'', rej_path \<mapsto> [],
      new_path \<mapsto> ''cat\<newline>dogdog\<newline>bird\<newline>dog\<newline>'']"

section \<open>Substrings and related words\<close>

lemma py_in_Nil: "py_in [] s"
  by (induction s) auto

lemma py_in_prefix: "py_in t (t @ ss)"
proof (cases "t @ ss")
  case Nil
  then show ?thesis by simp
next
  case (Cons c cs)
  have "take (length t) (t @ ss) = t" by simp
  then have "take (length t) (c # cs) = t" unfolding Cons .
  then have "py_in t (c # cs)" by simp
  then show ?thesis unfolding Cons .
qed

lemma py_in_append: "py_in t (ps @ t @ ss)"
  by (induction ps) (simp_all add: py_in_prefix)

lemma py_in_iff: "py_in t s \<longleftrightarrow> (\<exists>ps ss. s = ps @ t @ ss)"
proof
  show "py_in t s \<Longrightarrow> \<exists>ps ss. s = ps @ t @ ss"
  proof (induction s)
    case Nil
    then show ?case by simp
  next
    case (Cons c cs)
    show ?case
    proof (cases "take (length t) (c # cs) = t")
      case True
      then have "c # cs = [] @ t @ drop (length t) (c # cs)"
        by (metis append_Nil append_take_drop_id)
      then show ?thesis by blast
    next
      case False
      with Cons.prems have "py_in t cs" by simp
      then obtain ps ss where "cs = ps @ t @ ss" using Cons.IH by blast
      then have "c # cs = (c # ps) @ t @ ss" by simp
      then show ?thesis by blast
    qed
  qed
next
  assume "\<exists>ps ss. s = ps @ t @ ss"
  then show "py_in t s" using py_in_append by blast
qed

lemma findRelatedWords_loop_filter:
  "findRelatedWords_loop target out ws =
     out @ filter (\<lambda>word. py_in target (lower word) \<or> py_in (lower word) target) ws"
  by (induction ws arbitrary: out) (simp_all add: Let_def)

lemma findRelatedWords_filter:
  "findRelatedWords target wordlist =
     filter (\<lambda>word. py_in (lower (strip target)) (lower word) \<or> py_in (lower word) (lower (strip target)))
       (filter (\<lambda>x. length x > 2) (map strip wordlist))"
  by (simp add: findRelatedWords_def findRelatedWords_loop_filter)

section \<open>One iteration and the loop\<close>

lemma process_word_skip:
  "\<not> undecided st w \<Longrightarrow> process_word u st w = st"
  by (auto simp: process_word_def undecided_def)

lemma process_word_auto:
  "undecided st w \<Longrightarrow> auto_accepted w \<Longrightarrow>
   process_word u st w =
     st\<lparr>outFile := outFile st @ [w], alreadyAccepted := alreadyAccepted st @ [w]\<rparr>"
  by (simp add: process_word_def undecided_def)

lemma process_word_prompt:
  "undecided st w \<Longrightarrow> \<not> auto_accepted w \<Longrightarrow>
   process_word u st w =
     (if u (console st @ advisory st w) (prompt_message w) True
      then st\<lparr>console := console st @ advisory st w @ [Prompt (prompt_message w) True],
              outFile := outFile st @ [w], alreadyAccepted := alreadyAccepted st @ [w]\<rparr>
      else st\<lparr>console := console st @ advisory st w @ [Prompt (prompt_message w) True],
              rejectFile := rejectFile st @ [w], alreadyRejected := alreadyRejected st @ [w]\<rparr>)"
  by (simp add: process_word_def undecided_def advisory_def Let_def)

lemma process_word_cases:
  "exactly_one (accepted_step st w (process_word u st w))
               (rejected_step st w (process_word u st w))
               (skipped_step st w (process_word u st w))"
proof (cases "undecided st w")
  case False
  then show ?thesis
    by (simp add: process_word_skip exactly_one_def accepted_step_def rejected_step_def
        skipped_step_def)
next
  case True
  show ?thesis
  proof (cases "auto_accepted w")
    case True
    with \<open>undecided st w\<close> show ?thesis
      by (simp add: process_word_auto exactly_one_def accepted_step_def rejected_step_def
          skipped_step_def)
  next
    case False
    with \<open>undecided st w\<close> show ?thesis
      by (simp add: process_word_prompt exactly_one_def accepted_step_def rejected_step_def
          skipped_step_def)
  qed
qed

lemma process_word_accepted_mono:
  "set (alreadyAccepted st) \<subseteq> set (alreadyAccepted (process_word u st w))"
  by (cases "undecided st w"; cases "auto_accepted w")
     (auto simp: process_word_skip process_word_auto process_word_prompt)

lemma process_word_rejected_mono:
  "set (alreadyRejected st) \<subseteq> set (alreadyRejected (process_word u st w))"
  by (cases "undecided st w"; cases "auto_accepted w")
     (auto simp: process_word_skip process_word_auto process_word_prompt)

lemma process_word_decides:
  "\<not> undecided (process_word u st w) w"
  by (cases "undecided st w"; cases "auto_accepted w")
     (auto simp: process_word_skip process_word_auto process_word_prompt undecided_def)

lemma process_word_disjoint:
  "set (alreadyAccepted st) \<inter> set (alreadyRejected st) = {} \<Longrightarrow>
   set (alreadyAccepted (process_word u st w)) \<inter> set (alreadyRejected (process_word u st w)) = {}"
  by (cases "undecided st w"; cases "auto_accepted w")
     (auto simp: process_word_skip process_word_auto process_word_prompt undecided_def)

lemma main_loop_append:
  "main_loop u st (ws @ vs) = main_loop u (main_loop u st ws) vs"
  by (induction ws arbitrary: st) simp_all

lemma main_loop_snoc:
  "main_loop u st (ws @ [w]) = process_word u (main_loop u st ws) w"
  by (simp add: main_loop_append)

lemma main_loop_accepted_mono:
  "set (alreadyAccepted st) \<subseteq> set (alreadyAccepted (main_loop u st ws))"
proof (induction ws arbitrary: st)
  case Nil
  show ?case by simp
next
  case (Cons w ws)
  have "set (alreadyAccepted st) \<subseteq> set (alreadyAccepted (process_word u st w))"
    by (rule process_word_accepted_mono)
  also have "\<dots> \<subseteq> set (alreadyAccepted (main_loop u (process_word u st w) ws))"
    by (rule Cons.IH)
  finally show ?case by simp
qed

lemma main_loop_rejected_mono:
  "set (alreadyRejected st) \<subseteq> set (alreadyRejected (main_loop u st ws))"
proof (induction ws arbitrary: st)
  case Nil
  show ?case by simp
next
  case (Cons w ws)
  have "set (alreadyRejected st) \<subseteq> set (alreadyRejected (process_word u st w))"
    by (rule process_word_rejected_mono)
  also have "\<dots> \<subseteq> set (alreadyRejected (main_loop u (process_word u st w) ws))"
    by (rule Cons.IH)
  finally show ?case by simp
qed

lemma main_loop_keeps_decided:
  "\<not> undecided st w \<Longrightarrow> \<not> undecided (main_loop u st ws) w"
  using main_loop_accepted_mono [of st u ws] main_loop_rejected_mono [of st u ws]
  by (auto simp: undecided_def)

lemma main_loop_decides:
  "w \<in> set ws \<Longrightarrow> \<not> undecided (main_loop u st ws) w"
proof (induction ws arbitrary: st)
  case Nil
  then show ?case by simp
next
  case (Cons v ws)
  show ?case
  proof (cases "w = v")
    case True
    then show ?thesis
      using main_loop_keeps_decided [OF process_word_decides] by simp
  next
    case False
    with Cons.prems have "w \<in> set ws" by simp
    then show ?thesis using Cons.IH by simp
  qed
qed

lemma main_loop_disjoint:
  "set (alreadyAccepted st) \<inter> set (alreadyRejected st) = {} \<Longrightarrow>
   set (alreadyAccepted (main_loop u st ws)) \<inter> set (alreadyRejected (main_loop u st ws)) = {}"
  by (induction ws arbitrary: st) (simp_all add: process_word_disjoint)

lemma main_loop_all_decided:
  "\<forall>w \<in> set ws. \<not> undecided st w \<Longrightarrow> main_loop u st ws = st"
  by (induction ws) (simp_all add: process_word_skip)

lemma process_word_same_iff:
  "(process_word u st w = st) \<longleftrightarrow> \<not> undecided st w"
proof
  assume same: "process_word u st w = st"
  show "\<not> undecided st w"
  proof
    assume und: "undecided st w"
    have "length (outFile (process_word u st w)) + length (console (process_word u st w))
            > length (outFile st) + length (console st)"
      using und
      by (cases "auto_accepted w") (simp_all add: process_word_auto process_word_prompt)
    with same show False by simp
  qed
next
  assume "\<not> undecided st w"
  then show "process_word u st w = st" by (rule process_word_skip)
qed

lemma process_word_decided_set:
  "set (alreadyAccepted (process_word u st w)) \<union> set (alreadyRejected (process_word u st w)) =
     insert w (set (alreadyAccepted st) \<union> set (alreadyRejected st))"
  by (cases "undecided st w"; cases "auto_accepted w")
     (auto simp: process_word_skip process_word_auto process_word_prompt undecided_def)

lemma main_loop_decided_set:
  "set (alreadyAccepted (main_loop u st ws)) \<union> set (alreadyRejected (main_loop u st ws)) =
     set (alreadyAccepted st) \<union> set (alreadyRejected st) \<union> set ws"
proof (induction ws arbitrary: st)
  case Nil
  show ?case by simp
next
  case (Cons v ws)
  have "set (alreadyAccepted (main_loop u st (v # ws))) \<union>
          set (alreadyRejected (main_loop u st (v # ws))) =
        set (alreadyAccepted (process_word u st v)) \<union>
          set (alreadyRejected (process_word u st v)) \<union> set ws"
    using Cons.IH [of "process_word u st v"] by simp
  also have "\<dots> = insert v (set (alreadyAccepted st) \<union> set (alreadyRejected st)) \<union> set ws"
    by (simp only: process_word_decided_set)
  finally show ?case by auto
qed

section \<open>Lines of a text\<close>

lemma CR_neq_LF: "CR \<noteq> LF" "LF \<noteq> CR"
  by (simp_all add: CR_def LF_def)

lemma split_lines_Nil_iff: "split_lines s = [] \<longleftrightarrow> s = []"
  by (cases s) (simp_all split: list.split)

lemma split_lines_append:
  "newline_terminated t \<Longrightarrow> split_lines (t @ s) = split_lines t @ split_lines s"
proof (induction t)
  case Nil
  show ?case by simp
next
  case (Cons c cs)
  show ?case
  proof (cases "c = LF")
    case True
    from Cons.prems have "newline_terminated cs"
      by (auto simp: newline_terminated_def split: if_splits)
    with Cons.IH True show ?thesis by simp
  next
    case False
    with Cons.prems have ne: "cs \<noteq> []" and "newline_terminated cs"
      by (auto simp: newline_terminated_def split: if_splits)
    then have ih: "split_lines (cs @ s) = split_lines cs @ split_lines s"
      using Cons.IH by simp
    from ne obtain l ls where "split_lines cs = l # ls"
      using split_lines_Nil_iff [of cs] by (cases "split_lines cs") auto
    with ih False show ?thesis by simp
  qed
qed

lemma split_lines_line:
  "w \<noteq> [] \<Longrightarrow> LF \<notin> set (butlast w) \<Longrightarrow> split_lines w = [w]"
proof (induction w)
  case Nil
  then show ?case by simp
next
  case (Cons c cs)
  show ?case
  proof (cases "cs = []")
    case True
    then show ?thesis by simp
  next
    case False
    with Cons.prems have "c \<noteq> LF" and "LF \<notin> set (butlast cs)" by auto
    with Cons.IH False show ?thesis by simp
  qed
qed

lemma universal_newlines_append:
  "t = [] \<or> last t \<noteq> CR \<Longrightarrow>
   universal_newlines (t @ s) = universal_newlines t @ universal_newlines s"
proof (induction t rule: universal_newlines.induct)
  case 1
  show ?case by simp
next
  case (2 c cs)
  then show ?case
    by (cases cs) (auto split: if_splits)
qed

lemma universal_newlines_id:
  "CR \<notin> set w \<Longrightarrow> universal_newlines w = w"
  by (induction w) auto

lemma universal_newlines_no_CR:
  "CR \<notin> set (universal_newlines t)"
  by (induction t rule: universal_newlines.induct) (auto simp: CR_neq_LF split: list.splits)

lemma universal_newlines_Nil_iff: "universal_newlines t = [] \<longleftrightarrow> t = []"
  by (cases t) (simp_all split: list.split)

lemma universal_newlines_last:
  "t \<noteq> [] \<Longrightarrow> last t = LF \<Longrightarrow> last (universal_newlines t) = LF"
proof (induction t rule: universal_newlines.induct)
  case 1
  then show ?case by simp
next
  case (2 c cs)
  show ?case
  proof (cases cs)
    case Nil
    with "2.prems" show ?thesis by (simp add: CR_neq_LF)
  next
    case (Cons d ds)
    show ?thesis
    proof (cases "c = CR")
      case True
      show ?thesis
      proof (cases "d = LF")
        case dLF: True
        show ?thesis
        proof (cases "ds = []")
          case True
          with \<open>c = CR\<close> dLF Cons show ?thesis by simp
        next
          case False
          with "2.prems" Cons have "last ds = LF" by simp
          with "2.IH"(1) [OF \<open>c = CR\<close> Cons dLF] False
          have "last (universal_newlines ds) = LF" by simp
          with \<open>c = CR\<close> dLF Cons False show ?thesis
            by (simp add: universal_newlines_Nil_iff)
        qed
      next
        case dnLF: False
        from "2.prems" Cons have "last cs = LF" by simp
        with "2.IH"(2) [OF \<open>c = CR\<close> Cons dnLF] Cons
        have "last (universal_newlines cs) = LF" by simp
        moreover have "universal_newlines cs \<noteq> []"
          using universal_newlines_Nil_iff [of cs] Cons by blast
        ultimately show ?thesis using \<open>c = CR\<close> dnLF Cons by simp
      qed
    next
      case False
      from "2.prems" Cons have "last cs = LF" by simp
      with "2.IH"(3) [OF False] Cons
      have "last (universal_newlines cs) = LF" by simp
      moreover have "universal_newlines cs \<noteq> []"
        using universal_newlines_Nil_iff [of cs] Cons by blast
      ultimately show ?thesis using False by simp
    qed
  qed
qed

lemma universal_newlines_terminated:
  "newline_terminated t \<Longrightarrow> newline_terminated (universal_newlines t)"
proof (cases "t = []")
  case True
  then show ?thesis by (simp add: newline_terminated_def)
next
  case False
  moreover assume "newline_terminated t"
  ultimately have "last (universal_newlines t) = LF"
    by (simp add: newline_terminated_def universal_newlines_last)
  then show ?thesis by (simp add: newline_terminated_def)
qed

lemma readlines_append_line:
  assumes "newline_terminated t" and "is_line w"
  shows "readlines (t @ w) = readlines t @ [w]"
proof -
  from assms(1) have "t = [] \<or> last t \<noteq> CR"
    by (auto simp: newline_terminated_def CR_neq_LF)
  then have "universal_newlines (t @ w) = universal_newlines t @ universal_newlines w"
    by (rule universal_newlines_append)
  also have "universal_newlines w = w"
    using assms(2) by (simp add: universal_newlines_id is_line_def)
  finally have "readlines (t @ w) = split_lines (universal_newlines t @ w)"
    by (simp add: readlines_def)
  also have "\<dots> = split_lines (universal_newlines t) @ split_lines w"
    using assms(1) by (simp add: split_lines_append universal_newlines_terminated)
  also have "split_lines w = [w]"
    using assms(2) by (simp add: split_lines_line is_line_def)
  finally show ?thesis by (simp add: readlines_def)
qed

lemma terminated_append_full_line:
  "full_line w \<Longrightarrow> newline_terminated (t @ w)"
  by (simp add: full_line_def is_line_def newline_terminated_def)

lemma split_lines_are_lines:
  "l \<in> set (split_lines s) \<Longrightarrow> l \<noteq> [] \<and> LF \<notin> set (butlast l) \<and> set l \<subseteq> set s"
proof (induction s arbitrary: l)
  case Nil
  then show ?case by simp
next
  case (Cons c cs)
  show ?case
  proof (cases "c = LF")
    case True
    with Cons show ?thesis by auto
  next
    case False
    show ?thesis
    proof (cases "split_lines cs")
      case Nil
      with Cons.prems False show ?thesis by simp
    next
      case (Cons k ks)
      have k: "k \<noteq> [] \<and> LF \<notin> set (butlast k) \<and> set k \<subseteq> set cs"
        using Cons.IH [of k] Cons by simp
      from Cons.prems False Cons have "l = c # k \<or> l \<in> set ks" by simp
      then show ?thesis
      proof
        assume "l = c # k"
        with k False show ?thesis by auto
      next
        assume "l \<in> set ks"
        then have "l \<in> set (split_lines cs)" using Cons by simp
        then show ?thesis using Cons.IH [of l] by auto
      qed
    qed
  qed
qed

lemma split_lines_butlast_terminated:
  "l \<in> set (butlast (split_lines s)) \<Longrightarrow> last l = LF"
proof (induction s arbitrary: l)
  case Nil
  then show ?case by simp
next
  case (Cons c cs)
  show ?case
  proof (cases "c = LF")
    case True
    with Cons show ?thesis by (auto split: if_splits)
  next
    case False
    show ?thesis
    proof (cases "split_lines cs")
      case Nil
      with Cons.prems False show ?thesis by simp
    next
      case (Cons k ks)
      have kne: "k \<noteq> []"
        using split_lines_are_lines [of k cs] Cons by simp
      show ?thesis
      proof (cases "ks = []")
        case True
        with Cons.prems False Cons show ?thesis by simp
      next
        case False
        with Cons.prems \<open>c \<noteq> LF\<close> Cons have "l = c # k \<or> l \<in> set (butlast ks)" by simp
        then show ?thesis
        proof
          assume "l = c # k"
          moreover have "last k = LF" using Cons.IH [of k] Cons False by simp
          ultimately show ?thesis using kne by simp
        next
          assume "l \<in> set (butlast ks)"
          then have "l \<in> set (butlast (split_lines cs))" using Cons False by simp
          then show ?thesis by (rule Cons.IH)
        qed
      qed
    qed
  qed
qed

lemma readlines_are_lines:
  "l \<in> set (readlines t) \<Longrightarrow> is_line l"
  using split_lines_are_lines [of l "universal_newlines t"] universal_newlines_no_CR [of t]
  by (auto simp: readlines_def is_line_def)

lemma readlines_butlast_full:
  "l \<in> set (butlast (readlines t)) \<Longrightarrow> full_line l"
  using split_lines_butlast_terminated [of l "universal_newlines t"]
    readlines_are_lines [of l t] in_set_butlastD [of l "readlines t"]
  by (auto simp: readlines_def full_line_def)

section \<open>The files and the lists in memory\<close>

lemma readlines_Nil: "readlines [] = []"
  by (simp add: readlines_def)

lemma neighborFilepath_distinct:
  "neighborFilepath here NEW_WORDS_NAME \<noteq> neighborFilepath here REJECTED_WORDS_NAME"
  "neighborFilepath here REJECTED_WORDS_NAME \<noteq> neighborFilepath here NEW_WORDS_NAME"
  "neighborFilepath here SOURCE_WORDLIST_NAME \<noteq> neighborFilepath here NEW_WORDS_NAME"
  "neighborFilepath here SOURCE_WORDLIST_NAME \<noteq> neighborFilepath here REJECTED_WORDS_NAME"
  by (simp_all add: neighborFilepath_def path_join_def NEW_WORDS_NAME_def
      REJECTED_WORDS_NAME_def SOURCE_WORDLIST_NAME_def)

lemma getAcceptedWords_eq:
  "getAcceptedWords here files =
     Inr (readlines (content_of (files (neighborFilepath here NEW_WORDS_NAME))))"
  by (simp add: getAcceptedWords_def open_read_def content_of_def readlines_Nil
      split: option.split)

lemma getRejectWords_eq:
  "getRejectWords here files =
     Inr (readlines (content_of (files (neighborFilepath here REJECTED_WORDS_NAME))))"
  by (simp add: getRejectWords_def open_read_def content_of_def readlines_Nil
      split: option.split)

lemma append_to_eq:
  "append_to files path written = files(path \<mapsto> content_of (files path) @ concat written)"
  by (simp add: append_to_def content_of_def)

lemma process_word_flushed_terminated:
  assumes "flushed_terminated a r st" and "full_line w"
  shows "flushed_terminated a r (process_word u st w)"
proof -
  from assms(2) have "is_line w" by (simp add: full_line_def)
  with assms show ?thesis
    by (cases "undecided st w"; cases "auto_accepted w")
       (auto simp: process_word_skip process_word_auto process_word_prompt
          flushed_terminated_def flushed_def readlines_append_line
          terminated_append_full_line simp flip: append_assoc)
qed

lemma process_word_flushed:
  assumes "flushed_terminated a r st" and "is_line w"
  shows "flushed a r (process_word u st w)"
  using assms
  by (cases "undecided st w"; cases "auto_accepted w")
     (auto simp: process_word_skip process_word_auto process_word_prompt
        flushed_terminated_def flushed_def readlines_append_line simp flip: append_assoc)

lemma main_loop_flushed_terminated:
  "flushed_terminated a r st \<Longrightarrow> \<forall>w \<in> set ws. full_line w \<Longrightarrow>
   flushed_terminated a r (main_loop u st ws)"
  by (induction ws arbitrary: st) (simp_all add: process_word_flushed_terminated)

lemma main_loop_flushed:
  assumes "flushed_terminated a r st"
    and "\<forall>w \<in> set (butlast ws). full_line w" and "\<forall>w \<in> set ws. is_line w"
  shows "flushed a r (main_loop u st ws)"
proof (cases "ws = []")
  case True
  with assms(1) show ?thesis by (simp add: flushed_terminated_def)
next
  case False
  then have ws: "ws = butlast ws @ [last ws]" by simp
  have "flushed_terminated a r (main_loop u st (butlast ws))"
    using assms(1,2) by (rule main_loop_flushed_terminated)
  moreover have "is_line (last ws)" using assms(3) False by simp
  ultimately have "flushed a r (process_word u (main_loop u st (butlast ws)) (last ws))"
    by (rule process_word_flushed)
  then have "flushed a r (main_loop u st (butlast ws @ [last ws]))"
    by (simp only: main_loop_snoc)
  with ws show ?thesis by simp
qed

lemma initial_state_sel:
  "alreadyAccepted (initial_state a r) = a" "alreadyRejected (initial_state a r) = r"
  "outFile (initial_state a r) = []" "rejectFile (initial_state a r) = []"
  "console (initial_state a r) = []"
  by (simp_all add: initial_state_def)

lemma initial_flushed_terminated:
  "newline_terminated a \<Longrightarrow> newline_terminated r \<Longrightarrow>
   flushed_terminated a r (initial_state (readlines a) (readlines r))"
  by (simp add: flushed_terminated_def flushed_def initial_state_def)

lemma history_ok_content: "history_ok f \<Longrightarrow> newline_terminated (content_of f)"
  by (cases f) (simp_all add: history_ok_def content_of_def newline_terminated_def)

lemma main_eq:
  "main here u files =
     (case files (neighborFilepath here SOURCE_WORDLIST_NAME) of
        None \<Rightarrow> Inl (FileNotFoundError (neighborFilepath here SOURCE_WORDLIST_NAME))
      | Some inFile \<Rightarrow>
          (let st = main_loop u
                 (initial_state
                    (readlines (content_of (files (neighborFilepath here NEW_WORDS_NAME))))
                    (readlines (content_of (files (neighborFilepath here REJECTED_WORDS_NAME)))))
                 (readlines inFile)
           in Inr (files(neighborFilepath here REJECTED_WORDS_NAME \<mapsto>
                           content_of (files (neighborFilepath here REJECTED_WORDS_NAME)) @
                           concat (rejectFile st),
                         neighborFilepath here NEW_WORDS_NAME \<mapsto>
                           content_of (files (neighborFilepath here NEW_WORDS_NAME)) @
                           concat (outFile st)), st)))"
  by (simp add: main_def getAcceptedWords_eq getRejectWords_eq open_read_def append_to_eq
      neighborFilepath_distinct Let_def split: option.split)

section \<open>Evaluating the examples\<close>

lemmas text_eval = strip_def isspace_def lower_def lower_char_def isupper_def
  removesuffix_def endswith_def auto_accepted_def prompt_message_def

lemma tool_paths:
  "neighborFilepath tool_dir SOURCE_WORDLIST_NAME = src_path"
  "neighborFilepath tool_dir NEW_WORDS_NAME = new_path"
  "neighborFilepath tool_dir REJECTED_WORDS_NAME = rej_path"
  by (simp_all add: neighborFilepath_def path_join_def tool_dir_def src_path_def new_path_def
      rej_path_def SOURCE_WORDLIST_NAME_def NEW_WORDS_NAME_def REJECTED_WORDS_NAME_def)

lemma tool_paths_distinct:
  "src_path \<noteq> new_path" "src_path \<noteq> rej_path" "new_path \<noteq> rej_path"
  "new_path \<noteq> src_path" "rej_path \<noteq> src_path" "rej_path \<noteq> new_path"
  by (simp_all add: src_path_def new_path_def rej_path_def)

lemmas run_eval = main_eq tool_paths tool_paths_distinct content_of_def readlines_def
  CR_def LF_def process_word_def findRelatedWords_filter text_eval initial_state_def Let_def
  always_default_def always_no_def

section \<open>The properties\<close>

text \<open>
  Claim C1, with the length rule as the code computes it: a word that no list holds and
  whose stripped form, without a trailing \<open>'s\<close>, is longer than 3 is written to the output
  file and put on the accepted list; the console stays as it was, so no prompt is issued.
\<close>

theorem length_rule_accepts:
  assumes "auto_accepted w" and "undecided st w"
  shows "process_word u st w =
           st\<lparr>outFile := outFile st @ [w], alreadyAccepted := alreadyAccepted st @ [w]\<rparr> \<and>
         console (process_word u st w) = console st"
  using assms by (simp add: process_word_auto)

theorem length_rule_accepts_witness:
  "auto_accepted ''cats\<newline>'' \<and> undecided (initial_state [] [''dog\<newline>'']) ''cats\<newline>'' \<and>
   process_word always_no (initial_state [] [''dog\<newline>'']) ''cats\<newline>'' =
     \<lparr>alreadyAccepted = [''cats\<newline>''], alreadyRejected = [''dog\<newline>''],
      outFile = [''cats\<newline>''], rejectFile = [], console = []\<rparr>"
proof -
  have a: "auto_accepted ''cats\<newline>''"
    by (simp add: text_eval)
  have b: "undecided (initial_state [] [''dog\<newline>'']) ''cats\<newline>''"
    by (simp add: undecided_def initial_state_def)
  show ?thesis
    using length_rule_accepts [OF a b, of always_no] a b by (simp add: initial_state_def)
qed

text \<open>
  The rule as claim C1 writes it removes the suffix before it strips. The line
  \<open>cat's\<close> with its line feed satisfies that rule, and the run prompts for it; a user who
  declines keeps it off the accepted list and out of the output file.
\<close>

theorem claimed_length_rule_counterexample:
  "claimed_auto_accept ''cat's\<newline>'' \<and>
   undecided (initial_state [] []) ''cat's\<newline>'' \<and>
   console (process_word always_no (initial_state [] []) ''cat's\<newline>'') =
     [Prompt (prompt_message ''cat's\<newline>'') True] \<and>
   alreadyAccepted (process_word always_no (initial_state [] []) ''cat's\<newline>'') = [] \<and>
   outFile (process_word always_no (initial_state [] []) ''cat's\<newline>'') = []"
  by (simp add: claimed_auto_accept_def text_eval undecided_def initial_state_def
      process_word_def findRelatedWords_def always_no_def Let_def)

text \<open>
  Claim C2 fails on the code. A source whose last line has no line feed makes the first
  run leave the output file without one. The source then gets its line feed and one more
  word. The next run writes \<open>dog\<close> behind the unfinished line \<open>dog\<close>; the list in memory
  holds the two words, the file the one line \<open>dogdog\<close>. The run after it, on the same
  source, does not find \<open>dog\<close> in what it loads, prompts for it and writes it again.
\<close>

theorem second_run_differs:
  "main tool_dir always_default first_files =
     Inr (first_files_after,
          \<lparr>alreadyAccepted = [''cat\<newline>'', ''dog''], alreadyRejected = [],
           outFile = [''cat\<newline>'', ''dog''], rejectFile = [],
           console = [Prompt (prompt_message ''cat\<newline>'') True,
                      Prompt (prompt_message ''dog'') True]\<rparr>) \<and>
   main tool_dir always_default grown_files =
     Inr (grown_files1,
          \<lparr>alreadyAccepted = [''cat\<newline>'', ''dog'', ''dog\<newline>'', ''bird\<newline>''], alreadyRejected = [],
           outFile = [''dog\<newline>'', ''bird\<newline>''], rejectFile = [],
           console = [RelatedAccepted [''dog''], Prompt (prompt_message ''dog\<newline>'') True]\<rparr>) \<and>
   main tool_dir always_default grown_files1 =
     Inr (grown_files2,
          \<lparr>alreadyAccepted = [''cat\<newline>'', ''dogdog\<newline>'', ''bird\<newline>'', ''dog\<newline>''],
           alreadyRejected = [],
           outFile = [''dog\<newline>''], rejectFile = [],
           console = [RelatedAccepted [''dogdog''], Prompt (prompt_message ''dog\<newline>'') True]\<rparr>) \<and>
   grown_files1 new_path = Some ''cat\<newline>dogdog\<newline>bird\<newline>'' \<and>
   grown_files2 new_path = Some ''cat\<newline>dogdog\<newline>bird\<newline>dog\<newline>''"
  by (simp add: run_eval first_files_def first_files_after_def grown_files_def
      grown_files1_def grown_files2_def fun_eq_iff)

text \<open>
  When both history files are missing, empty or ended by a line feed, the second run
  changes nothing: after a run that returns, a run on the store it leaves returns the
  same store, writes nothing to either file and shows nothing on the console, whatever
  the user would answer.
\<close>

theorem second_run_changes_nothing:
  assumes "history_ok (files (neighborFilepath here NEW_WORDS_NAME))"
    and "history_ok (files (neighborFilepath here REJECTED_WORDS_NAME))"
    and "main here u files = Inr (files1, st1)"
  shows "main here u' files1 =
           Inr (files1, initial_state (alreadyAccepted st1) (alreadyRejected st1))"
proof -
  let ?new = "neighborFilepath here NEW_WORDS_NAME"
  let ?rej = "neighborFilepath here REJECTED_WORDS_NAME"
  let ?src = "neighborFilepath here SOURCE_WORDLIST_NAME"
  let ?a = "content_of (files ?new)"
  let ?r = "content_of (files ?rej)"
  from assms(3) obtain inFile where src: "files ?src = Some inFile"
    by (auto simp: main_eq split: option.splits)
  let ?ws = "readlines inFile"
  let ?st0 = "initial_state (readlines ?a) (readlines ?r)"
  from assms(3) src have st1: "st1 = main_loop u ?st0 ?ws"
    and files1: "files1 = files(?rej \<mapsto> ?r @ concat (rejectFile st1),
                                ?new \<mapsto> ?a @ concat (outFile st1))"
    by (auto simp: main_eq Let_def)
  have "flushed_terminated ?a ?r ?st0"
    using assms(1,2) by (simp add: initial_flushed_terminated history_ok_content)
  then have "flushed ?a ?r st1"
    unfolding st1
    by (rule main_loop_flushed) (auto intro: readlines_butlast_full readlines_are_lines)
  then have acc1: "readlines (?a @ concat (outFile st1)) = alreadyAccepted st1"
    and rej1: "readlines (?r @ concat (rejectFile st1)) = alreadyRejected st1"
    by (simp_all add: flushed_def)
  have new1: "content_of (files1 ?new) = ?a @ concat (outFile st1)"
    and rejf1: "content_of (files1 ?rej) = ?r @ concat (rejectFile st1)"
    and src1: "files1 ?src = Some inFile"
    using src by (simp_all add: files1 content_of_def neighborFilepath_distinct)
  let ?st = "initial_state (alreadyAccepted st1) (alreadyRejected st1)"
  have "\<forall>w \<in> set ?ws. \<not> undecided ?st w"
  proof
    fix w
    assume "w \<in> set ?ws"
    then have "\<not> undecided st1 w"
      unfolding st1 by (rule main_loop_decides)
    then show "\<not> undecided ?st w"
      by (simp add: undecided_def initial_state_def)
  qed
  then have loop: "main_loop u' ?st ?ws = ?st"
    by (rule main_loop_all_decided)
  have same: "files1(?rej \<mapsto> content_of (files1 ?rej), ?new \<mapsto> content_of (files1 ?new)) = files1"
    by (auto simp: files1 content_of_def neighborFilepath_distinct)
  have "main here u' files1 =
          (let st = main_loop u' ?st ?ws
           in Inr (files1(?rej \<mapsto> content_of (files1 ?rej) @ concat (rejectFile st),
                          ?new \<mapsto> content_of (files1 ?new) @ concat (outFile st)), st))"
    unfolding main_eq [of here u' files1] src1 new1 rejf1 acc1 rej1 by simp
  also have "\<dots> = Inr (files1(?rej \<mapsto> content_of (files1 ?rej),
                               ?new \<mapsto> content_of (files1 ?new)), ?st)"
    unfolding Let_def loop by (simp add: initial_state_sel)
  finally show ?thesis by (simp only: same)
qed

theorem second_run_changes_nothing_witness:
  "history_ok ([src_path \<mapsto> ''cats\<newline>cat\<newline>dog''] (neighborFilepath tool_dir NEW_WORDS_NAME)) \<and>
   history_ok ([src_path \<mapsto> ''cats\<newline>cat\<newline>dog''] (neighborFilepath tool_dir REJECTED_WORDS_NAME)) \<and>
   main tool_dir always_no [src_path \<mapsto> ''cats\<newline>cat\<newline>dog''] =
     Inr ([src_path \<mapsto> ''cats\<newline>cat\<newline>dog'', rej_path \<mapsto> ''cat\<newline>dog'', new_path \<mapsto> ''cats\<newline>''],
          \<lparr>alreadyAccepted = [''cats\<newline>''], alreadyRejected = [''cat\<newline>'', ''dog''],
           outFile = [''cats\<newline>''], rejectFile = [''cat\<newline>'', ''dog''],
           console = [RelatedAccepted [''cats''], Prompt (prompt_message ''cat\<newline>'') True,
                      Prompt (prompt_message ''dog'') True]\<rparr>) \<and>
   main tool_dir always_default
     [src_path \<mapsto> ''cats\<newline>cat\<newline>dog'', rej_path \<mapsto> ''cat\<newline>dog'', new_path \<mapsto> ''cats\<newline>''] =
     Inr ([src_path \<mapsto> ''cats\<newline>cat\<newline>dog'', rej_path \<mapsto> ''cat\<newline>dog'', new_path \<mapsto> ''cats\<newline>''],
          initial_state [''cats\<newline>''] [''cat\<newline>'', ''dog''])"
proof -
  let ?files = "[src_path \<mapsto> ''cats\<newline>cat\<newline>dog'']"
  have a: "history_ok (?files (neighborFilepath tool_dir NEW_WORDS_NAME))"
    by (simp add: tool_paths tool_paths_distinct history_ok_def)
  have b: "history_ok (?files (neighborFilepath tool_dir REJECTED_WORDS_NAME))"
    by (simp add: tool_paths tool_paths_distinct history_ok_def)
  have c: "main tool_dir always_no ?files =
     Inr ([src_path \<mapsto> ''cats\<newline>cat\<newline>dog'', rej_path \<mapsto> ''cat\<newline>dog'', new_path \<mapsto> ''cats\<newline>''],
          \<lparr>alreadyAccepted = [''cats\<newline>''], alreadyRejected = [''cat\<newline>'', ''dog''],
           outFile = [''cats\<newline>''], rejectFile = [''cat\<newline>'', ''dog''],
           console = [RelatedAccepted [''cats''], Prompt (prompt_message ''cat\<newline>'') True,
                      Prompt (prompt_message ''dog'') True]\<rparr>)"
    by (simp add: run_eval)
  show ?thesis
    using second_run_changes_nothing [OF a b c, of always_default] a b c by simp
qed

text \<open>
  Claim C3: in a run over a source list, each line has exactly one of the three outcomes
  (accepted, rejected, skipped as a duplicate); at the end one of the two lists holds each
  source word; and when the two lists have no common element at the start, they have
  none at the end.
\<close>

theorem run_partition:
  assumes "set (alreadyAccepted st) \<inter> set (alreadyRejected st) = {}"
  shows "(\<forall>i < length ws.
            exactly_one
              (accepted_step (main_loop u st (take i ws)) (ws ! i)
                 (main_loop u st (take (Suc i) ws)))
              (rejected_step (main_loop u st (take i ws)) (ws ! i)
                 (main_loop u st (take (Suc i) ws)))
              (skipped_step (main_loop u st (take i ws)) (ws ! i)
                 (main_loop u st (take (Suc i) ws)))) \<and>
         (\<forall>w \<in> set ws. \<not> undecided (main_loop u st ws) w) \<and>
         set (alreadyAccepted (main_loop u st ws)) \<inter>
           set (alreadyRejected (main_loop u st ws)) = {}"
proof (intro conjI allI impI ballI)
  fix i
  assume "i < length ws"
  then have "take (Suc i) ws = take i ws @ [ws ! i]"
    by (rule take_Suc_conv_app_nth)
  then have "main_loop u st (take (Suc i) ws) =
               process_word u (main_loop u st (take i ws)) (ws ! i)"
    by (simp only: main_loop_snoc)
  then show "exactly_one
     (accepted_step (main_loop u st (take i ws)) (ws ! i) (main_loop u st (take (Suc i) ws)))
     (rejected_step (main_loop u st (take i ws)) (ws ! i) (main_loop u st (take (Suc i) ws)))
     (skipped_step (main_loop u st (take i ws)) (ws ! i) (main_loop u st (take (Suc i) ws)))"
    by (simp only: process_word_cases)
next
  fix w
  assume "w \<in> set ws"
  then show "\<not> undecided (main_loop u st ws) w" by (rule main_loop_decides)
next
  show "set (alreadyAccepted (main_loop u st ws)) \<inter>
          set (alreadyRejected (main_loop u st ws)) = {}"
    using assms by (rule main_loop_disjoint)
qed

theorem run_partition_witness:
  "set (alreadyAccepted (initial_state [] [''dog\<newline>''])) \<inter>
     set (alreadyRejected (initial_state [] [''dog\<newline>''])) = {} \<and>
   main_loop always_no (initial_state [] [''dog\<newline>''])
       [''cats\<newline>'', ''cat\<newline>'', ''dog\<newline>'', ''cats\<newline>''] =
     \<lparr>alreadyAccepted = [''cats\<newline>''], alreadyRejected = [''dog\<newline>'', ''cat\<newline>''],
      outFile = [''cats\<newline>''], rejectFile = [''cat\<newline>''],
      console = [RelatedAccepted [''cats''], Prompt (prompt_message ''cat\<newline>'') True]\<rparr> \<and>
   exactly_one
     (accepted_step
        (main_loop always_no (initial_state [] [''dog\<newline>''])
           (take 1 [''cats\<newline>'', ''cat\<newline>'', ''dog\<newline>'', ''cats\<newline>'']))
        ([''cats\<newline>'', ''cat\<newline>'', ''dog\<newline>'', ''cats\<newline>''] ! 1)
        (main_loop always_no (initial_state [] [''dog\<newline>''])
           (take (Suc 1) [''cats\<newline>'', ''cat\<newline>'', ''dog\<newline>'', ''cats\<newline>''])))
     (rejected_step
        (main_loop always_no (initial_state [] [''dog\<newline>''])
           (take 1 [''cats\<newline>'', ''cat\<newline>'', ''dog\<newline>'', ''cats\<newline>'']))
        ([''cats\<newline>'', ''cat\<newline>'', ''dog\<newline>'', ''cats\<newline>''] ! 1)
        (main_loop always_no (initial_state [] [''dog\<newline>''])
           (take (Suc 1) [''cats\<newline>'', ''cat\<newline>'', ''dog\<newline>'', ''cats\<newline>''])))
     (skipped_step
        (main_loop always_no (initial_state [] [''dog\<newline>''])
           (take 1 [''cats\<newline>'', ''cat\<newline>'', ''dog\<newline>'', ''cats\<newline>'']))
        ([''cats\<newline>'', ''cat\<newline>'', ''dog\<newline>'', ''cats\<newline>''] ! 1)
        (main_loop always_no (initial_state [] [''dog\<newline>''])
           (take (Suc 1) [''cats\<newline>'', ''cat\<newline>'', ''dog\<newline>'', ''cats\<newline>'']))) \<and>
   set (alreadyAccepted (main_loop always_no (initial_state [] [''dog\<newline>''])
          [''cats\<newline>'', ''cat\<newline>'', ''dog\<newline>'', ''cats\<newline>''])) \<inter>
     set (alreadyRejected (main_loop always_no (initial_state [] [''dog\<newline>''])
          [''cats\<newline>'', ''cat\<newline>'', ''dog\<newline>'', ''cats\<newline>''])) = {}"
proof -
  let ?st = "initial_state [] [''dog\<newline>'']"
  let ?ws = "[''cats\<newline>'', ''cat\<newline>'', ''dog\<newline>'', ''cats\<newline>'']"
  have a: "set (alreadyAccepted ?st) \<inter> set (alreadyRejected ?st) = {}"
    by (simp add: initial_state_sel)
  have b: "main_loop always_no ?st ?ws =
     \<lparr>alreadyAccepted = [''cats\<newline>''], alreadyRejected = [''dog\<newline>'', ''cat\<newline>''],
      outFile = [''cats\<newline>''], rejectFile = [''cat\<newline>''],
      console = [RelatedAccepted [''cats''], Prompt (prompt_message ''cat\<newline>'') True]\<rparr>"
    by (simp add: run_eval)
  have c: "(1::nat) < length ?ws" by simp
  note p = run_partition [OF a, of ?ws always_no]
  from p have p1: "exactly_one
     (accepted_step (main_loop always_no ?st (take 1 ?ws)) (?ws ! 1)
        (main_loop always_no ?st (take (Suc 1) ?ws)))
     (rejected_step (main_loop always_no ?st (take 1 ?ws)) (?ws ! 1)
        (main_loop always_no ?st (take (Suc 1) ?ws)))
     (skipped_step (main_loop always_no ?st (take 1 ?ws)) (?ws ! 1)
        (main_loop always_no ?st (take (Suc 1) ?ws)))"
    using c by blast
  from p have p3: "set (alreadyAccepted (main_loop always_no ?st ?ws)) \<inter>
     set (alreadyRejected (main_loop always_no ?st ?ws)) = {}"
    by blast
  from a b p1 p3 show ?thesis by (intro conjI)
qed

text \<open>
  Claim C4, as the code has it: for a single word the result is the stripped word when
  that is longer than 2 and one of the lowered, stripped strings occurs in the other, and
  the empty list otherwise; so the result is the stripped word exactly in that case.
\<close>

theorem related_single:
  "findRelatedWords target [w] =
     (if length (strip w) > 2 \<and>
         (py_in (lower (strip target)) (lower (strip w)) \<or>
          py_in (lower (strip w)) (lower (strip target)))
      then [strip w] else []) \<and>
   ((findRelatedWords target [w] = [strip w]) \<longleftrightarrow>
      (length (strip w) > 2 \<and>
       (py_in (lower (strip target)) (lower (strip w)) \<or>
        py_in (lower (strip w)) (lower (strip target)))))"
  by (auto simp: findRelatedWords_filter)

theorem related_single_witness:
  "findRelatedWords ''Cat\<newline>'' [''cats\<newline>''] = [''cats''] \<and>
   findRelatedWords ''cat\<newline>'' [''do\<newline>''] = []"
proof -
  have a: "(if length (strip ''cats\<newline>'') > 2 \<and>
               (py_in (lower (strip ''Cat\<newline>'')) (lower (strip ''cats\<newline>'')) \<or>
                py_in (lower (strip ''cats\<newline>'')) (lower (strip ''Cat\<newline>'')))
            then [strip ''cats\<newline>''] else []) = [''cats'']"
    by code_simp
  have b: "(if length (strip ''do\<newline>'') > 2 \<and>
               (py_in (lower (strip ''cat\<newline>'')) (lower (strip ''do\<newline>'')) \<or>
                py_in (lower (strip ''do\<newline>'')) (lower (strip ''cat\<newline>'')))
            then [strip ''do\<newline>''] else []) = []"
    by code_simp
  show ?thesis
    using related_single [of "''Cat\<newline>''" "''cats\<newline>''", THEN conjunct1]
      related_single [of "''cat\<newline>''" "''do\<newline>''", THEN conjunct1]
    by (simp only: a b)
qed

text \<open>
  Claim C4 as it is written fails in both directions. For the target \<open>cat\<close> with its line
  feed and the word \<open>cats\<close> the result is the word, and neither lowered raw string occurs
  in the other. For the target \<open>cat\<close> and the word \<open>cats\<close> with its line feed, the
  condition of the claim holds and the result is not the raw word.
\<close>

theorem related_single_counterexample:
  "(findRelatedWords ''cat\<newline>'' [''cats''] = [''cats''] \<and>
    \<not> ((py_in (lower ''cat\<newline>'') (lower ''cats'') \<or>
         py_in (lower ''cats'') (lower ''cat\<newline>'')) \<and> length (strip ''cats'') > 2)) \<and>
   (findRelatedWords ''cat'' [''cats\<newline>''] \<noteq> [''cats\<newline>''] \<and>
    (py_in (lower ''cat'') (lower ''cats\<newline>'') \<or>
     py_in (lower ''cats\<newline>'') (lower ''cat'')) \<and> length (strip ''cats\<newline>'') > 2)"
  by (simp add: findRelatedWords_filter text_eval)

text \<open>
  Claim C5: an iteration on a word that one of the two lists already holds returns the
  state as it is (no prompt, nothing written, no list extended); and in a run over a
  source list, a word that has occurred before is skipped when it occurs again.
\<close>

theorem skip_invariant:
  "(w \<in> set (alreadyAccepted st) \<or> w \<in> set (alreadyRejected st)
      \<longrightarrow> process_word u st w = st) \<and>
   (w \<in> set ws \<longrightarrow> main_loop u st (ws @ [w]) = main_loop u st ws)"
proof (intro conjI impI)
  assume "w \<in> set (alreadyAccepted st) \<or> w \<in> set (alreadyRejected st)"
  then have "\<not> undecided st w" by (auto simp: undecided_def)
  then show "process_word u st w = st" by (rule process_word_skip)
next
  assume "w \<in> set ws"
  then have "\<not> undecided (main_loop u st ws) w" by (rule main_loop_decides)
  then have "process_word u (main_loop u st ws) w = main_loop u st ws"
    by (rule process_word_skip)
  then show "main_loop u st (ws @ [w]) = main_loop u st ws"
    by (simp only: main_loop_snoc)
qed

theorem skip_invariant_witness:
  "process_word always_no (initial_state [''cat\<newline>''] [''dog\<newline>'']) ''dog\<newline>'' =
     initial_state [''cat\<newline>''] [''dog\<newline>''] \<and>
   main_loop always_no (initial_state [] []) ([''cat\<newline>'', ''cats\<newline>''] @ [''cat\<newline>'']) =
     main_loop always_no (initial_state [] []) [''cat\<newline>'', ''cats\<newline>'']"
  using skip_invariant [of "''dog\<newline>''" "initial_state [''cat\<newline>''] [''dog\<newline>'']" always_no "[]"]
    skip_invariant [of "''cat\<newline>''" "initial_state [] []" always_no "[''cat\<newline>'', ''cats\<newline>'']"]
  by (simp add: initial_state_def)

text \<open>
  Claim C6, as the code has it: the result is the list of the stripped forms of the
  entries that are related to the target, in the order of the word list.
\<close>

theorem related_words_stripped:
  "findRelatedWords target wordlist = map strip (filter (related_entry target) wordlist)"
  by (induction wordlist) (auto simp: findRelatedWords_filter related_entry_def)

theorem related_words_stripped_witness:
  "findRelatedWords ''cat\<newline>'' [''Scatter\<newline>'', ''dog\<newline>'', ''at\<newline>'', ''cats\<newline>''] =
     [''Scatter'', ''cats'']"
proof -
  have "map strip (filter (related_entry ''cat\<newline>'')
          [''Scatter\<newline>'', ''dog\<newline>'', ''at\<newline>'', ''cats\<newline>'']) = [''Scatter'', ''cats'']"
    by code_simp
  then show ?thesis
    using related_words_stripped
      [of "''cat\<newline>''" "[''Scatter\<newline>'', ''dog\<newline>'', ''at\<newline>'', ''cats\<newline>'']"]
    by simp
qed

text \<open>
  Claim C6 as it is written, with the entries themselves in the result, fails on a word
  list read from a file: the entry keeps its line feed and the result does not.
\<close>

theorem related_words_counterexample:
  "findRelatedWords ''cat'' [''cats\<newline>''] \<noteq> filter (related_entry ''cat'') [''cats\<newline>'']"
  by (simp add: findRelatedWords_filter related_entry_def text_eval)

text \<open>
  Claim C7: when the output file is missing, \<open>getAcceptedWords\<close> returns the empty list
  and not an error, and the run is the run on the store where that file is empty; the same
  holds for \<open>getRejectWords\<close> and the reject file.
\<close>

theorem missing_history:
  "(files (neighborFilepath here NEW_WORDS_NAME) = None \<longrightarrow>
      getAcceptedWords here files = Inr [] \<and>
      main here u files = main here u (files(neighborFilepath here NEW_WORDS_NAME \<mapsto> []))) \<and>
   (files (neighborFilepath here REJECTED_WORDS_NAME) = None \<longrightarrow>
      getRejectWords here files = Inr [] \<and>
      main here u files = main here u (files(neighborFilepath here REJECTED_WORDS_NAME \<mapsto> [])))"
proof (intro conjI impI)
  assume "files (neighborFilepath here NEW_WORDS_NAME) = None"
  then show "getAcceptedWords here files = Inr []"
    by (simp add: getAcceptedWords_def open_read_def)
next
  assume "files (neighborFilepath here REJECTED_WORDS_NAME) = None"
  then show "getRejectWords here files = Inr []"
    by (simp add: getRejectWords_def open_read_def)
next
  let ?new = "neighborFilepath here NEW_WORDS_NAME"
  let ?rej = "neighborFilepath here REJECTED_WORDS_NAME"
  assume none: "files ?new = None"
  have "(files(?new \<mapsto> []))(?rej \<mapsto> x, ?new \<mapsto> y) = files(?rej \<mapsto> x, ?new \<mapsto> y)" for x y
    by (auto simp: fun_eq_iff)
  with none show "main here u files = main here u (files(?new \<mapsto> []))"
    by (simp add: main_eq content_of_def neighborFilepath_distinct Let_def
        split: option.split)
next
  let ?new = "neighborFilepath here NEW_WORDS_NAME"
  let ?rej = "neighborFilepath here REJECTED_WORDS_NAME"
  assume none: "files ?rej = None"
  have "(files(?rej \<mapsto> []))(?rej \<mapsto> x, ?new \<mapsto> y) = files(?rej \<mapsto> x, ?new \<mapsto> y)" for x y
    by (auto simp: fun_eq_iff)
  with none show "main here u files = main here u (files(?rej \<mapsto> []))"
    by (simp add: main_eq content_of_def neighborFilepath_distinct Let_def
        split: option.split)
qed

theorem missing_history_witness:
  "getAcceptedWords tool_dir [src_path \<mapsto> ''cats\<newline>''] = Inr [] \<and>
   getRejectWords tool_dir [src_path \<mapsto> ''cats\<newline>''] = Inr [] \<and>
   main tool_dir always_default [src_path \<mapsto> ''cats\<newline>''] =
     main tool_dir always_default
       ([src_path \<mapsto> ''cats\<newline>''](neighborFilepath tool_dir NEW_WORDS_NAME \<mapsto> [])) \<and>
   main tool_dir always_default [src_path \<mapsto> ''cats\<newline>''] =
     main tool_dir always_default
       ([src_path \<mapsto> ''cats\<newline>''](neighborFilepath tool_dir REJECTED_WORDS_NAME \<mapsto> [])) \<and>
   main tool_dir always_default [src_path \<mapsto> ''cats\<newline>''] =
     Inr ([src_path \<mapsto> ''cats\<newline>'', rej_path \<mapsto> [], new_path \<mapsto> ''cats\<newline>''],
          \<lparr>alreadyAccepted = [''cats\<newline>''], alreadyRejected = [],
           outFile = [''cats\<newline>''], rejectFile = [], console = []\<rparr>)"
proof -
  let ?files = "[src_path \<mapsto> ''cats\<newline>'']"
  have a: "?files (neighborFilepath tool_dir NEW_WORDS_NAME) = None"
    by (simp add: tool_paths tool_paths_distinct)
  have b: "?files (neighborFilepath tool_dir REJECTED_WORDS_NAME) = None"
    by (simp add: tool_paths tool_paths_distinct)
  have c: "main tool_dir always_default ?files =
     Inr ([src_path \<mapsto> ''cats\<newline>'', rej_path \<mapsto> [], new_path \<mapsto> ''cats\<newline>''],
          \<lparr>alreadyAccepted = [''cats\<newline>''], alreadyRejected = [],
           outFile = [''cats\<newline>''], rejectFile = [], console = []\<rparr>)"
    by (simp add: run_eval)
  note m = missing_history [of ?files tool_dir always_default]
  from m a have m1: "getAcceptedWords tool_dir ?files = Inr []"
    and m2: "main tool_dir always_default ?files =
      main tool_dir always_default (?files(neighborFilepath tool_dir NEW_WORDS_NAME \<mapsto> []))"
    by blast+
  from m b have m3: "getRejectWords tool_dir ?files = Inr []"
    and m4: "main tool_dir always_default ?files =
      main tool_dir always_default (?files(neighborFilepath tool_dir REJECTED_WORDS_NAME \<mapsto> []))"
    by blast+
  from m1 m3 m2 m4 c show ?thesis by (intro conjI)
qed

text \<open>
  Claim C8: for an undecided word that the length rule does not accept, one prompt is
  issued, with the default yes, after the advisory lines; with the answer to it, the word
  goes to the output file and the accepted list exactly when the answer is yes, to the
  reject file and the rejected list exactly when it is no, and so to exactly one of them.
\<close>

theorem prompt_routing:
  assumes "undecided st w" and "\<not> auto_accepted w"
  shows "console (process_word u st w) =
           console st @ advisory st w @ [Prompt (prompt_message w) True] \<and>
         (accepted_step st w (process_word u st w) \<longleftrightarrow>
            u (console st @ advisory st w) (prompt_message w) True) \<and>
         (rejected_step st w (process_word u st w) \<longleftrightarrow>
            \<not> u (console st @ advisory st w) (prompt_message w) True) \<and>
         (accepted_step st w (process_word u st w) \<noteq> rejected_step st w (process_word u st w))"
  using assms
  by (simp add: process_word_prompt accepted_step_def rejected_step_def)

theorem prompt_routing_witness:
  "undecided (initial_state [''cats\<newline>''] []) ''cat\<newline>'' \<and> \<not> auto_accepted ''cat\<newline>'' \<and>
   console (process_word always_default (initial_state [''cats\<newline>''] []) ''cat\<newline>'') =
     [RelatedAccepted [''cats''], Prompt (prompt_message ''cat\<newline>'') True] \<and>
   accepted_step (initial_state [''cats\<newline>''] []) ''cat\<newline>''
     (process_word always_default (initial_state [''cats\<newline>''] []) ''cat\<newline>'') \<and>
   rejected_step (initial_state [''cats\<newline>''] []) ''cat\<newline>''
     (process_word always_no (initial_state [''cats\<newline>''] []) ''cat\<newline>'')"
proof -
  have a: "undecided (initial_state [''cats\<newline>''] []) ''cat\<newline>''"
    by (simp add: undecided_def initial_state_def)
  have b: "\<not> auto_accepted ''cat\<newline>''"
    by (simp add: text_eval)
  have c: "advisory (initial_state [''cats\<newline>''] []) ''cat\<newline>'' = [RelatedAccepted [''cats'']]"
    by (simp add: advisory_def initial_state_def findRelatedWords_filter text_eval)
  show ?thesis
    using prompt_routing [OF a b, of always_default] prompt_routing [OF a b, of always_no] a b
    by (simp add: c always_default_def always_no_def initial_state_sel)
qed

text \<open>
  Claim C9, with the lists as they are in memory when the line is tested: an iteration
  leaves the state as it is exactly when one of the two lists holds the very string of
  the source line; in a run, that is exactly when the string is in a loaded list or is a
  source line before it. With the line \<open>cat\<close> and its line feed in the history, the source
  line \<open>cat\<close> without a line feed is not skipped.
\<close>

theorem skip_exact:
  "((process_word u st w = st) \<longleftrightarrow>
      (w \<in> set (alreadyAccepted st) \<or> w \<in> set (alreadyRejected st))) \<and>
   ((process_word u (main_loop u (initial_state accepted rejected) ws) w =
       main_loop u (initial_state accepted rejected) ws) \<longleftrightarrow>
      (w \<in> set accepted \<or> w \<in> set rejected \<or> w \<in> set ws)) \<and>
   process_word u (initial_state [''cat\<newline>''] []) ''cat'' \<noteq> initial_state [''cat\<newline>''] []"
proof (intro conjI)
  show "(process_word u st w = st) \<longleftrightarrow>
          (w \<in> set (alreadyAccepted st) \<or> w \<in> set (alreadyRejected st))"
    by (simp add: process_word_same_iff undecided_def)
next
  let ?st = "main_loop u (initial_state accepted rejected) ws"
  have "(process_word u ?st w = ?st) \<longleftrightarrow>
          w \<in> set (alreadyAccepted ?st) \<union> set (alreadyRejected ?st)"
    by (simp add: process_word_same_iff undecided_def)
  also have "\<dots> \<longleftrightarrow> w \<in> set accepted \<union> set rejected \<union> set ws"
    by (simp only: main_loop_decided_set initial_state_sel)
  finally show "(process_word u ?st w = ?st) \<longleftrightarrow>
                  (w \<in> set accepted \<or> w \<in> set rejected \<or> w \<in> set ws)"
    by simp
next
  have "undecided (initial_state [''cat\<newline>''] []) ''cat''"
    by (simp add: undecided_def initial_state_def)
  then show "process_word u (initial_state [''cat\<newline>''] []) ''cat'' \<noteq>
               initial_state [''cat\<newline>''] []"
    by (simp add: process_word_same_iff)
qed

theorem skip_exact_witness:
  "process_word always_default (initial_state [''cat\<newline>''] [''dog\<newline>'']) ''cat\<newline>'' =
     initial_state [''cat\<newline>''] [''dog\<newline>''] \<and>
   process_word always_default (initial_state [''cat\<newline>''] [''dog\<newline>'']) ''Cat\<newline>'' \<noteq>
     initial_state [''cat\<newline>''] [''dog\<newline>''] \<and>
   process_word always_default
       (main_loop always_default (initial_state [''cat\<newline>''] []) [''cats\<newline>'']) ''cats\<newline>'' =
     main_loop always_default (initial_state [''cat\<newline>''] []) [''cats\<newline>''] \<and>
   process_word always_default
       (main_loop always_default (initial_state [''cat\<newline>''] []) [''cats\<newline>'']) ''cats'' \<noteq>
     main_loop always_default (initial_state [''cat\<newline>''] []) [''cats\<newline>''] \<and>
   process_word always_default (initial_state [''cat\<newline>''] []) ''cat'' \<noteq>
     initial_state [''cat\<newline>''] []"
proof -
  note a = skip_exact [of always_default "initial_state [''cat\<newline>''] [''dog\<newline>'']" "''cat\<newline>''",
      THEN conjunct1]
  note b = skip_exact [of always_default "initial_state [''cat\<newline>''] [''dog\<newline>'']" "''Cat\<newline>''",
      THEN conjunct1]
  note c = skip_exact [of always_default _ "''cats\<newline>''" "[''cat\<newline>'']" "[]" "[''cats\<newline>'']",
      THEN conjunct2, THEN conjunct1]
  note d = skip_exact [of always_default _ "''cats''" "[''cat\<newline>'']" "[]" "[''cats\<newline>'']",
      THEN conjunct2, THEN conjunct1]
  note e = skip_exact [of always_default, THEN conjunct2, THEN conjunct2]
  from a have a': "process_word always_default (initial_state [''cat\<newline>''] [''dog\<newline>'']) ''cat\<newline>'' =
     initial_state [''cat\<newline>''] [''dog\<newline>'']"
    by (simp add: initial_state_sel)
  from b have b': "process_word always_default (initial_state [''cat\<newline>''] [''dog\<newline>'']) ''Cat\<newline>'' \<noteq>
     initial_state [''cat\<newline>''] [''dog\<newline>'']"
    by (simp add: initial_state_sel)
  from c have c': "process_word always_default
       (main_loop always_default (initial_state [''cat\<newline>''] []) [''cats\<newline>'']) ''cats\<newline>'' =
     main_loop always_default (initial_state [''cat\<newline>''] []) [''cats\<newline>'']"
    by simp
  from d have d': "process_word always_default
       (main_loop always_default (initial_state [''cat\<newline>''] []) [''cats\<newline>'']) ''cats'' \<noteq>
     main_loop always_default (initial_state [''cat\<newline>''] []) [''cats\<newline>'']"
    by simp
  from a' b' c' d' e show ?thesis by (intro conjI)
qed

text \<open>
  Claim C9 as it is written, with the lists as they were loaded, fails for a source line
  that occurs twice: with no history, the second \<open>cats\<close> is in neither loaded list and is
  skipped.
\<close>

theorem skip_loaded_counterexample:
  "''cats\<newline>'' \<notin> set (alreadyAccepted (initial_state [] [])) \<and>
   ''cats\<newline>'' \<notin> set (alreadyRejected (initial_state [] [])) \<and>
   process_word always_default
       (main_loop always_default (initial_state [] []) [''cats\<newline>'']) ''cats\<newline>'' =
     main_loop always_default (initial_state [] []) [''cats\<newline>'']"
  by (simp add: run_eval initial_state_def)

text \<open>
  Claim C10, as the code has it: for a target that strips to the empty string, the result
  is the list of the stripped forms of all entries whose stripped form is longer than 2.
\<close>

theorem blank_target:
  assumes "strip target = []"
  shows "findRelatedWords target wordlist = map strip (filter long_entry wordlist)"
  using assms
  by (induction wordlist) (auto simp: findRelatedWords_filter long_entry_def lower_def py_in_Nil)

theorem blank_target_witness:
  "strip '' \<newline>'' = [] \<and>
   findRelatedWords '' \<newline>'' [''cats\<newline>'', ''at\<newline>'', ''Dog\<newline>''] = [''cats'', ''Dog'']"
proof -
  have a: "strip '' \<newline>'' = []"
    by (simp add: text_eval)
  have b: "map strip (filter long_entry [''cats\<newline>'', ''at\<newline>'', ''Dog\<newline>'']) = [''cats'', ''Dog'']"
    by code_simp
  show ?thesis
    using blank_target [OF a, of "[''cats\<newline>'', ''at\<newline>'', ''Dog\<newline>'']"] a b
    by simp
qed

text \<open>
  Claim C10 as it is written, with the entries themselves in the result, fails for a blank
  line and a history read from a file.
\<close>

theorem blank_target_counterexample:
  "strip ''\<newline>'' = [] \<and>
   findRelatedWords ''\<newline>'' [''cats\<newline>''] \<noteq> filter long_entry [''cats\<newline>'']"
  by (simp add: findRelatedWords_filter long_entry_def text_eval)

end
